theory Spec2Isabelle
  imports Main
begin

section \<open>The archive-streaming handler of server.py\<close>

text \<open>
  The handler \<open>archivate\<close> of \<open>server.py\<close> is a coroutine: it validates the identifier,
  prepares a streaming response, spawns \<open>zip\<close> and relays the standard output of the
  process to the response, chunk by chunk. Everything it does beyond computing is a call
  into a library (aiohttp, asyncio, os.path). The model makes these calls explicit:
  \<^item> the world is a record: the file system as seen by \<open>os.path.isdir\<close>, what the
    archiver will still write, the state of the \<open>StreamReader\<close> on its standard output,
    and the trace of the calls the handler has made;
  \<^item> the outcome of each \<open>await\<close> is chosen by the environment, from a script that
    the awaits consume in order: the call completes, raises (an I/O failure, or
    \<open>CancelledError\<close> when the task is cancelled while it is suspended there), or never
    resumes;
  \<^item> a Python exception is the result \<open>Raised e\<close>, a coroutine that stays suspended for
    ever is the result \<open>Blocked\<close>.
  Logging calls are left out: they have no effect on the control flow.
\<close>

subsection \<open>Data\<close>

type_synonym bytes = string \<comment> \<open>Python \<open>bytes\<close>: a list of 8-bit characters\<close>

datatype exn =
    HTTPBadRequest
  | HTTPNotFound string
  | CancelledError
  | FileNotFoundError
  | PermissionError
  | ConnectionResetError
  | ProcessLookupError
  | OtherError string

datatype 'a res = Returned 'a | Raised exn | Blocked

text \<open>
  What the environment decides for one \<open>await\<close>. \<open>Resume k\<close>: the call completes,
  and while the coroutine was suspended the event loop ran \<open>k\<close> further callbacks of the
  pipe transport of the archiver (each feeds one block of data, or the end of file, to
  the stream reader).
\<close>

datatype outcome = Resume nat | Throw exn | Never

datatype event =
    EvPrepare "(string \<times> string) list" \<comment> \<open>\<open>response.prepare\<close> was called; the headers of the response\<close>
  | EvSpawn "string list" string \<comment> \<open>\<open>create_subprocess_exec\<close> was called: arguments and \<open>cwd\<close>\<close>
  | EvRead bytes \<comment> \<open>\<open>stdout.read(CHUNK_SIZE)\<close> returned this chunk\<close>
  | EvWrite bytes \<comment> \<open>\<open>response.write\<close> was called with this chunk\<close>
  | EvSleep nat \<comment> \<open>\<open>asyncio.sleep\<close> was called\<close>
  | EvWriteEof \<comment> \<open>\<open>response.write_eof\<close> was called\<close>
  | EvKill \<comment> \<open>\<open>zip_process.kill\<close> was called\<close>
  | EvWait \<comment> \<open>\<open>zip_process.wait\<close> was called\<close>

text \<open>The module-level settings that \<open>_configure_settings\<close> fixes before the server starts.\<close>

record config =
  MEDIA_DIR :: string
  SLOWDOWN :: bool

definition TIME2DELAY :: nat where
  "TIME2DELAY = 1"

definition CHUNK_SIZE :: nat where
  "CHUNK_SIZE = 256 * 1024"

record world =
  isdir :: "string \<Rightarrow> bool" \<comment> \<open>the file system, as \<open>os.path.isdir\<close> answers\<close>
  sched :: "outcome list" \<comment> \<open>outcomes of the awaits to come; past its end every await completes\<close>
  pending :: "bytes list" \<comment> \<open>blocks the archiver will still write to its standard output\<close>
  closes :: bool \<comment> \<open>whether the archiver closes its standard output after the last block\<close>
  spawned :: bool \<comment> \<open>\<open>create_subprocess_exec\<close> has returned a process\<close>
  buffer :: bytes \<comment> \<open>\<open>StreamReader._buffer\<close>\<close>
  eof :: bool \<comment> \<open>\<open>StreamReader._eof\<close>\<close>
  reaped :: bool \<comment> \<open>\<open>zip_process.wait\<close> has returned\<close>
  kill_raises :: "exn option" \<comment> \<open>what \<open>zip_process.kill\<close> raises, if anything\<close>
  trace :: "event list" \<comment> \<open>the calls made so far, oldest first\<close>

record request =
  match_info :: "string \<rightharpoonup> string"

text \<open>The world in which a request arrives: no process, an empty trace.\<close>

definition request_start ::
  "(string \<Rightarrow> bool) \<Rightarrow> outcome list \<Rightarrow> bytes list \<Rightarrow> bool \<Rightarrow> exn option \<Rightarrow> world" where
  "request_start fs sc out cl kr =
     \<lparr>isdir = fs, sched = sc, pending = out, closes = cl, spawned = False,
      buffer = [], eof = False, reaped = False, kill_raises = kr, trace = []\<rparr>"

subsection \<open>The library calls\<close>

text \<open>
  \<open>os.path.join\<close> of \<open>posixpath\<close> for two components: a second component that starts
  with the separator replaces the first.
\<close>

definition os_path_join :: "string \<Rightarrow> string \<Rightarrow> string" where
  "os_path_join a b =
     (if take 1 b = ''/'' then b
      else if a = [] \<or> last a = CHR ''/'' then a @ b
      else a @ ''/'' @ b)"

definition next_outcome :: "world \<Rightarrow> outcome \<times> world" where
  "next_outcome s =
     (case sched s of
        [] \<Rightarrow> (Resume 0, s)
      | x # xs \<Rightarrow> (x, s\<lparr>sched := xs\<rparr>))"

text \<open>
  \<open>k\<close> callbacks of the pipe transport: \<open>feed_data\<close> for the next block, \<open>feed_eof\<close>
  once the archiver has written everything and closed its end.
\<close>

fun arrive :: "nat \<Rightarrow> world \<Rightarrow> world" where
  "arrive 0 s = s"
| "arrive (Suc k) s =
     (case pending s of
        b # bs \<Rightarrow> arrive k (s\<lparr>pending := bs, buffer := buffer s @ b\<rparr>)
      | [] \<Rightarrow> if closes s then s\<lparr>eof := True\<rparr> else s)"

text \<open>
  \<open>StreamReader._wait_for_data\<close>: the reader sleeps until \<open>feed_data\<close> brings a
  non-empty block (an empty one does not wake it) or \<open>feed_eof\<close> is called. \<open>None\<close>: the
  archiver neither writes nor closes, and the reader sleeps for ever.
\<close>

fun first_data :: "bytes list \<Rightarrow> (bytes \<times> bytes list) option" where
  "first_data [] = None"
| "first_data (b # bs) = (if b = [] then first_data bs else Some (b, bs))"

definition wait_for_data :: "world \<Rightarrow> world option" where
  "wait_for_data s =
     (case first_data (pending s) of
        Some (b, bs) \<Rightarrow> Some (s\<lparr>pending := bs, buffer := buffer s @ b\<rparr>)
      | None \<Rightarrow> if closes s then Some (s\<lparr>pending := [], eof := True\<rparr>) else None)"

definition at_eof :: "world \<Rightarrow> bool" where
  "at_eof s = (eof s \<and> buffer s = [])"

text \<open>
  \<open>StreamReader.read(n)\<close>: waits only when the buffer is empty and the end of file has
  not been fed, then returns at most \<open>n\<close> bytes from the front of the buffer; at the end
  of file that is the empty chunk.
\<close>

definition read :: "nat \<Rightarrow> world \<Rightarrow> bytes res \<times> world" where
  "read n s =
     (case next_outcome s of
        (Throw e, s1) \<Rightarrow> (Raised e, s1)
      | (Never, s1) \<Rightarrow> (Blocked, s1)
      | (Resume k, s1) \<Rightarrow>
          (case (if buffer s1 = [] \<and> \<not> eof s1
                 then map_option (arrive k) (wait_for_data s1) else Some s1) of
             None \<Rightarrow> (Blocked, s1)
           | Some s2 \<Rightarrow>
               (let data = take n (buffer s2)
                in (Returned data,
                    s2\<lparr>buffer := drop n (buffer s2), trace := trace s2 @ [EvRead data]\<rparr>))))"

text \<open>An awaited call: it is logged, and then completes, raises or blocks as the environment decides.\<close>

definition lib_call :: "event \<Rightarrow> world \<Rightarrow> nat res \<times> world" where
  "lib_call ev s =
     (case next_outcome (s\<lparr>trace := trace s @ [ev]\<rparr>) of
        (Throw e, s1) \<Rightarrow> (Raised e, s1)
      | (Never, s1) \<Rightarrow> (Blocked, s1)
      | (Resume k, s1) \<Rightarrow> (Returned k, s1))"

definition response_prepare :: "(string \<times> string) list \<Rightarrow> world \<Rightarrow> unit res \<times> world" where
  "response_prepare headers s =
     (case lib_call (EvPrepare headers) s of
        (Returned k, s1) \<Rightarrow> (Returned (), s1)
      | (Raised e, s1) \<Rightarrow> (Raised e, s1)
      | (Blocked, s1) \<Rightarrow> (Blocked, s1))"

definition create_subprocess_exec :: "string list \<Rightarrow> string \<Rightarrow> world \<Rightarrow> unit res \<times> world" where
  "create_subprocess_exec args cwd s =
     (case lib_call (EvSpawn args cwd) s of
        (Returned k, s1) \<Rightarrow> (Returned (), arrive k (s1\<lparr>spawned := True\<rparr>))
      | (Raised e, s1) \<Rightarrow> (Raised e, s1)
      | (Blocked, s1) \<Rightarrow> (Blocked, s1))"

definition response_write :: "bytes \<Rightarrow> world \<Rightarrow> unit res \<times> world" where
  "response_write chunk s =
     (case lib_call (EvWrite chunk) s of
        (Returned k, s1) \<Rightarrow> (Returned (), arrive k s1)
      | (Raised e, s1) \<Rightarrow> (Raised e, s1)
      | (Blocked, s1) \<Rightarrow> (Blocked, s1))"

definition sleep :: "nat \<Rightarrow> world \<Rightarrow> unit res \<times> world" where
  "sleep t s =
     (case lib_call (EvSleep t) s of
        (Returned k, s1) \<Rightarrow> (Returned (), arrive k s1)
      | (Raised e, s1) \<Rightarrow> (Raised e, s1)
      | (Blocked, s1) \<Rightarrow> (Blocked, s1))"

definition response_write_eof :: "world \<Rightarrow> unit res \<times> world" where
  "response_write_eof s =
     (case lib_call EvWriteEof s of
        (Returned k, s1) \<Rightarrow> (Returned (), s1)
      | (Raised e, s1) \<Rightarrow> (Raised e, s1)
      | (Blocked, s1) \<Rightarrow> (Blocked, s1))"

text \<open>
  \<open>Process.kill\<close> is an ordinary call, not an await: it returns at once, or raises
  (\<open>ProcessLookupError\<close> when the process has exited and its transport is closed).
\<close>

definition kill :: "world \<Rightarrow> exn option \<times> world" where
  "kill s = (kill_raises s, s\<lparr>trace := trace s @ [EvKill]\<rparr>)"

definition wait :: "world \<Rightarrow> unit res \<times> world" where
  "wait s =
     (case lib_call EvWait s of
        (Returned k, s1) \<Rightarrow> (Returned (), s1\<lparr>reaped := True\<rparr>)
      | (Raised e, s1) \<Rightarrow> (Raised e, s1)
      | (Blocked, s1) \<Rightarrow> (Blocked, s1))"

subsection \<open>The functions of server.py\<close>

text \<open>\<open>_exists\<close> (an Isabelle name cannot start with an underscore).\<close>

definition u_exists :: "config \<Rightarrow> world \<Rightarrow> string \<Rightarrow> bool" where
  "u_exists cfg s files_folder =
     (let path = os_path_join (MEDIA_DIR cfg) files_folder
      in isdir s path)"

text \<open>\<open>_response_header\<close>: the headers of the fresh \<open>StreamResponse\<close>.\<close>

definition u_response_header :: "string \<Rightarrow> (string \<times> string) list" where
  "u_response_header file_name =
     [(''Content-Type'', ''application/zip''),
      (''Content-Disposition'',
       ''attachment; filename='' @ [CHR 0x22] @ file_name @ ''.zip'' @ [CHR 0x22])]"

text \<open>
  The measure of the relay loop: the bytes and blocks still to come, plus one while the
  end of file has not been fed.
\<close>

definition backlog :: "world \<Rightarrow> nat" where
  "backlog s =
     length (buffer s) + sum_list (map (\<lambda>b. Suc (length b)) (pending s))
       + (if eof s then 0 else 1)"

subsection \<open>Vocabulary of the properties\<close>

text \<open>
  The chunks passed to \<open>response.write\<close> and the chunks returned by \<open>stdout.read\<close>, in
  the order of the trace.
\<close>

fun written :: "event list \<Rightarrow> bytes list" where
  "written [] = []"
| "written (EvWrite c # t) = c # written t"
| "written (e # t) = written t"

fun chunks_read :: "event list \<Rightarrow> bytes list" where
  "chunks_read [] = []"
| "chunks_read (EvRead c # t) = c # chunks_read t"
| "chunks_read (e # t) = chunks_read t"

text \<open>The calls made by the loop itself.\<close>

fun loop_event :: "event \<Rightarrow> bool" where
  "loop_event (EvRead c) = True"
| "loop_event (EvWrite c) = True"
| "loop_event (EvSleep n) = True"
| "loop_event e = False"

text \<open>
  The bytes between the archiver and the handler: those in the buffer of the reader and
  those still to arrive.
\<close>

definition inflight :: "world \<Rightarrow> bytes" where
  "inflight s = buffer s @ concat (pending s)"

text \<open>The end of file is fed after the last block.\<close>

definition eof_last :: "world \<Rightarrow> bool" where
  "eof_last s = (eof s \<longrightarrow> pending s = [])"

text \<open>The reader has nothing left: the end of file is fed and the buffer is empty.\<close>

definition drained :: "world \<Rightarrow> bool" where
  "drained s = (buffer s = [] \<and> eof s \<and> pending s = [])"

text \<open>Two worlds with the same process, file system and behaviour of the archiver.\<close>

definition same_process :: "world \<Rightarrow> world \<Rightarrow> bool" where
  "same_process s s' =
     (spawned s' = spawned s \<and> reaped s' = reaped s \<and> kill_raises s' = kill_raises s
      \<and> closes s' = closes s \<and> isdir s' = isdir s)"

text \<open>An await that completes.\<close>

fun completes :: "outcome \<Rightarrow> bool" where
  "completes (Resume k) = True"
| "completes x = False"



text \<open>
  What \<open>create_subprocess_exec\<close> raises when the binary is missing or cannot be
  executed.
\<close>

definition cannot_start :: "exn \<Rightarrow> bool" where
  "cannot_start e = (e = FileNotFoundError \<or> e = PermissionError)"

subsection \<open>Example worlds\<close>

text \<open>
  The media root \<open>test_photos\<close> holds one directory, \<open>abc\<close>; the media root itself, its
  parent and \<open>/etc\<close> are directories, as on any POSIX system.
\<close>

definition photos_cfg :: config where
  "photos_cfg = \<lparr>MEDIA_DIR = ''test_photos'', SLOWDOWN = False\<rparr>"

definition request_for :: "string \<Rightarrow> request" where
  "request_for h = \<lparr>match_info = [''archive_hash'' \<mapsto> h]\<rparr>"

definition photos_fs :: "string \<Rightarrow> bool" where
  "photos_fs p = (p \<in> set [''test_photos'', ''test_photos/abc'', ''test_photos/..'', ''/etc''])"

text \<open>A transfer that completes: the archiver writes two blocks and closes.\<close>

definition plain_start :: world where
  "plain_start = request_start photos_fs [] [''PK'', ''zip''] True None"

definition plain_end :: "string \<Rightarrow> world" where
  "plain_end h =
     \<lparr>isdir = photos_fs, sched = [], pending = [],
      closes = True, spawned = True, buffer = [], eof = True, reaped = True,
      kill_raises = None,
      trace = [EvPrepare (u_response_header h),
               EvSpawn [''zip'', ''-r'', ''-'', h] ''test_photos'',
               EvRead ''PK'', EvWrite ''PK'', EvRead ''zip'', EvWrite ''zip'',
               EvRead [], EvWrite [], EvWriteEof, EvWait]\<rparr>"

text \<open>The process is running and the client goes away: the first write fails.\<close>

definition interrupted_start :: world where
  "interrupted_start =
     \<lparr>isdir = photos_fs, sched = [Resume 0, Throw ConnectionResetError], pending = [''PK''],
      closes = True, spawned = True, buffer = [], eof = False, reaped = False,
      kill_raises = None, trace = []\<rparr>"

definition interrupted_loop_end :: world where
  "interrupted_loop_end =
     \<lparr>isdir = photos_fs, sched = [], pending = [],
      closes = True, spawned = True, buffer = [], eof = False, reaped = False,
      kill_raises = None, trace = [EvRead ''PK'', EvWrite ''PK'']\<rparr>"

definition interrupted_end :: world where
  "interrupted_end =
     \<lparr>isdir = photos_fs, sched = [], pending = [],
      closes = True, spawned = True, buffer = [], eof = False, reaped = True,
      kill_raises = None, trace = [EvRead ''PK'', EvWrite ''PK'', EvKill, EvWait]\<rparr>"

text \<open>The task is cancelled while the handler is suspended in the first write.\<close>

definition cancelled_start :: world where
  "cancelled_start =
     request_start photos_fs [Resume 0, Resume 0, Resume 0, Throw CancelledError]
       [''PK''] True None"

definition cancelled_end :: world where
  "cancelled_end =
     \<lparr>isdir = photos_fs, sched = [], pending = [],
      closes = True, spawned = True, buffer = [], eof = False, reaped = True,
      kill_raises = None,
      trace = [EvPrepare (u_response_header ''abc''),
               EvSpawn [''zip'', ''-r'', ''-'', ''abc''] ''test_photos'',
               EvRead ''PK'', EvWrite ''PK'', EvKill, EvWait]\<rparr>"

text \<open>There is no \<open>zip\<close> to execute: \<open>create_subprocess_exec\<close> raises.\<close>

definition nozip_start :: world where
  "nozip_start = request_start photos_fs [Resume 0, Throw FileNotFoundError] [] False None"

definition nozip_prepared :: world where
  "nozip_prepared =
     \<lparr>isdir = photos_fs, sched = [Throw FileNotFoundError], pending = [],
      closes = False, spawned = False, buffer = [], eof = False, reaped = False,
      kill_raises = None,
      trace = [EvPrepare (u_response_header ''abc'')]\<rparr>"

definition nozip_end :: world where
  "nozip_end =
     \<lparr>isdir = photos_fs, sched = [], pending = [],
      closes = False, spawned = False, buffer = [], eof = False, reaped = False,
      kill_raises = None,
      trace = [EvPrepare (u_response_header ''abc''),
               EvSpawn [''zip'', ''-r'', ''-'', ''abc''] ''test_photos'']\<rparr>"






text \<open>
  The process is running, everything it wrote has been relayed, and it is about to close
  its standard output.
\<close>

definition drained_start :: world where
  "drained_start =
     \<lparr>isdir = photos_fs, sched = [], pending = [],
      closes = True, spawned = True, buffer = [], eof = False, reaped = False,
      kill_raises = None, trace = []\<rparr>"

definition drained_loop_end :: world where
  "drained_loop_end =
     \<lparr>isdir = photos_fs, sched = [], pending = [],
      closes = True, spawned = True, buffer = [], eof = True, reaped = False,
      kill_raises = None, trace = [EvRead [], EvWrite []]\<rparr>"

definition drained_try_end :: world where
  "drained_try_end =
     \<lparr>isdir = photos_fs, sched = [], pending = [],
      closes = True, spawned = True, buffer = [], eof = True, reaped = False,
      kill_raises = None, trace = [EvRead [], EvWrite [], EvWriteEof]\<rparr>"

definition drained_end :: world where
  "drained_end =
     \<lparr>isdir = photos_fs, sched = [], pending = [],
      closes = True, spawned = True, buffer = [], eof = True, reaped = True,
      kill_raises = None, trace = [EvRead [], EvWrite [], EvWriteEof, EvWait]\<rparr>"

subsection \<open>The relay loop and the handler\<close>

lemma CHUNK_SIZE_pos: "0 < CHUNK_SIZE"
  by (simp add: CHUNK_SIZE_def)

lemma backlog_arrive: "backlog (arrive k s) \<le> backlog s"
proof (induction k arbitrary: s)
  case 0
  show ?case by simp
next
  case (Suc k)
  show ?case
  proof (cases "pending s")
    case Nil
    then show ?thesis by (simp add: backlog_def)
  next
    case (Cons b bs)
    have "backlog (arrive k (s\<lparr>pending := bs, buffer := buffer s @ b\<rparr>))
            \<le> backlog (s\<lparr>pending := bs, buffer := buffer s @ b\<rparr>)"
      by (rule Suc.IH)
    also have "\<dots> \<le> backlog s"
      using Cons by (simp add: backlog_def)
    finally show ?thesis using Cons by simp
  qed
qed

lemma first_data_sum:
  "first_data bs = Some (b, rest) \<Longrightarrow>
     b \<noteq> [] \<and> length b + sum_list (map (\<lambda>b. Suc (length b)) rest)
                 < sum_list (map (\<lambda>b. Suc (length b)) bs)"
  by (induction bs) (auto split: if_splits)

lemma backlog_wait_for_data:
  "wait_for_data s = Some s' \<Longrightarrow> \<not> eof s \<Longrightarrow> backlog s' < backlog s"
  by (auto simp: wait_for_data_def backlog_def split: option.splits if_splits
           dest: first_data_sum)

lemma backlog_read:
  assumes "read CHUNK_SIZE s = (Returned chunk, s')" and "\<not> at_eof s"
  shows "backlog s' < backlog s"
proof -
  obtain o1 s1 where n: "next_outcome s = (o1, s1)"
    by (cases "next_outcome s")
  have s1: "buffer s1 = buffer s" "eof s1 = eof s" "backlog s1 = backlog s"
    using n by (auto simp: next_outcome_def backlog_def split: list.splits)
  from assms(1) n obtain k where o1: "o1 = Resume k"
    by (cases o1) (auto simp: read_def)
  show ?thesis
  proof (cases "buffer s1 = [] \<and> \<not> eof s1")
    case True
    with assms(1) n o1 obtain s2 where w: "wait_for_data s1 = Some s2"
      and s': "s' = (arrive k s2)\<lparr>buffer := drop CHUNK_SIZE (buffer (arrive k s2)),
                      trace := trace (arrive k s2) @ [EvRead chunk]\<rparr>"
      by (auto simp: read_def Let_def split: option.splits)
    have "backlog s' \<le> backlog (arrive k s2)"
      unfolding s' by (simp add: backlog_def)
    also have "\<dots> \<le> backlog s2" by (rule backlog_arrive)
    also have "\<dots> < backlog s1" using w True by (simp add: backlog_wait_for_data)
    finally show ?thesis using s1 by simp
  next
    case False
    with assms(1) n o1
    have s': "s' = s1\<lparr>buffer := drop CHUNK_SIZE (buffer s1), trace := trace s1 @ [EvRead chunk]\<rparr>"
      by (auto simp: read_def Let_def)
    from False assms(2) s1 have "buffer s1 \<noteq> []"
      by (auto simp: at_eof_def)
    then have "length (drop CHUNK_SIZE (buffer s1)) < length (buffer s1)"
      using CHUNK_SIZE_pos by (cases "buffer s1") auto
    then have "backlog s' < backlog s1"
      unfolding s' by (simp add: backlog_def)
    then show ?thesis using s1 by simp
  qed
qed

lemma backlog_lib_call: "lib_call ev s = (r, s') \<Longrightarrow> backlog s' = backlog s"
  by (auto simp: lib_call_def next_outcome_def backlog_def split: list.splits outcome.splits)

lemma backlog_write: "response_write chunk s = (r, s') \<Longrightarrow> backlog s' \<le> backlog s"
  by (auto simp: response_write_def split: prod.splits res.splits dest!: backlog_lib_call)
     (metis backlog_arrive)

lemma backlog_sleep: "sleep t s = (r, s') \<Longrightarrow> backlog s' \<le> backlog s"
  by (auto simp: sleep_def split: prod.splits res.splits dest!: backlog_lib_call)
     (metis backlog_arrive)

text \<open>The \<open>while True\<close> loop of \<open>archivate\<close> (lines 109 to 117).\<close>

function relay_loop :: "config \<Rightarrow> world \<Rightarrow> unit res \<times> world" where
  "relay_loop cfg s =
     (if at_eof s then (Returned (), s)
      else
        (case read CHUNK_SIZE s of
           (Raised e, s1) \<Rightarrow> (Raised e, s1)
         | (Blocked, s1) \<Rightarrow> (Blocked, s1)
         | (Returned chunk, s1) \<Rightarrow>
             (case response_write chunk s1 of
                (Raised e, s2) \<Rightarrow> (Raised e, s2)
              | (Blocked, s2) \<Rightarrow> (Blocked, s2)
              | (Returned u, s2) \<Rightarrow>
                  if SLOWDOWN cfg then
                    (case sleep TIME2DELAY s2 of
                       (Raised e, s3) \<Rightarrow> (Raised e, s3)
                     | (Blocked, s3) \<Rightarrow> (Blocked, s3)
                     | (Returned v, s3) \<Rightarrow> relay_loop cfg s3)
                  else relay_loop cfg s2)))"
  by pat_completeness auto
termination
proof (relation "measure (\<lambda>(cfg, s). backlog s)", goal_cases)
  case 1
  show ?case by simp
next
  case (2 cfg s x1 s1 chunk x2 s2 u x3 s3 v)
  have "backlog s3 \<le> backlog s2"
    using backlog_sleep [of TIME2DELAY s2 x3 s3] 2 by simp
  moreover have "backlog s2 \<le> backlog s1"
    using backlog_write [of chunk s1 x2 s2] 2 by simp
  moreover have "backlog s1 < backlog s"
    using backlog_read [of s chunk s1] 2 by simp
  ultimately show ?case by simp
next
  case (3 cfg s x1 s1 chunk x2 s2 u)
  have "backlog s2 \<le> backlog s1"
    using backlog_write [of chunk s1 x2 s2] 3 by simp
  moreover have "backlog s1 < backlog s"
    using backlog_read [of s chunk s1] 3 by simp
  ultimately show ?case by simp
qed

declare relay_loop.simps [simp del]

text \<open>
  The \<open>try\<close> statement of \<open>archivate\<close> (lines 108 to 129), in the world in which
  \<open>create_subprocess_exec\<close> has returned: the loop and \<open>write_eof\<close>; on any exception
  \<open>kill\<close> and the exception again; in every case \<open>wait\<close>. An exception raised by \<open>kill\<close>
  or by \<open>wait\<close> replaces the one in flight, as in Python.
\<close>

definition try_body :: "config \<Rightarrow> world \<Rightarrow> unit res \<times> world" where
  "try_body cfg s =
     (case relay_loop cfg s of
        (Returned u, s1) \<Rightarrow> response_write_eof s1
      | (Raised e, s1) \<Rightarrow> (Raised e, s1)
      | (Blocked, s1) \<Rightarrow> (Blocked, s1))"

definition relay :: "config \<Rightarrow> world \<Rightarrow> unit res \<times> world" where
  "relay cfg s =
     (case try_body cfg s of
        (Blocked, s1) \<Rightarrow> (Blocked, s1)
      | (Returned u, s1) \<Rightarrow>
          (case wait s1 of
             (Returned v, s2) \<Rightarrow> (Returned (), s2)
           | (Raised e', s2) \<Rightarrow> (Raised e', s2)
           | (Blocked, s2) \<Rightarrow> (Blocked, s2))
      | (Raised e, s1) \<Rightarrow>
          (case kill s1 of
             (Some e', s2) \<Rightarrow>
               (case wait s2 of
                  (Returned v, s3) \<Rightarrow> (Raised e', s3)
                | (Raised e'', s3) \<Rightarrow> (Raised e'', s3)
                | (Blocked, s3) \<Rightarrow> (Blocked, s3))
           | (None, s2) \<Rightarrow>
               (case wait s2 of
                  (Returned v, s3) \<Rightarrow> (Raised e, s3)
                | (Raised e'', s3) \<Rightarrow> (Raised e'', s3)
                | (Blocked, s3) \<Rightarrow> (Blocked, s3))))"

text \<open>\<open>archivate\<close> (lines 93 to 129).\<close>

definition archivate :: "config \<Rightarrow> request \<Rightarrow> world \<Rightarrow> unit res \<times> world" where
  "archivate cfg req s =
     (case match_info req ''archive_hash'' of
        None \<Rightarrow> (Raised HTTPBadRequest, s)
      | Some archive_hash \<Rightarrow>
          if archive_hash = [] then (Raised HTTPBadRequest, s)
          else if \<not> u_exists cfg s archive_hash
          then (Raised (HTTPNotFound ''Archive not exists or was deleted!''), s)
          else
            (case response_prepare (u_response_header archive_hash) s of
               (Raised e, s1) \<Rightarrow> (Raised e, s1)
             | (Blocked, s1) \<Rightarrow> (Blocked, s1)
             | (Returned u, s1) \<Rightarrow>
                 (case create_subprocess_exec [''zip'', ''-r'', ''-'', archive_hash]
                         (MEDIA_DIR cfg) s1 of
                    (Raised e, s2) \<Rightarrow> (Raised e, s2)
                  | (Blocked, s2) \<Rightarrow> (Blocked, s2)
                  | (Returned v, s2) \<Rightarrow> relay cfg s2)))"

section \<open>Lemmas\<close>

lemma written_append: "written (t @ u) = written t @ written u"
  by (induction t rule: written.induct) auto

lemma chunks_read_append: "chunks_read (t @ u) = chunks_read t @ chunks_read u"
  by (induction t rule: chunks_read.induct) auto

lemma next_outcome_keeps:
  "next_outcome s = (x, s') \<Longrightarrow>
     trace s' = trace s \<and> buffer s' = buffer s \<and> eof s' = eof s \<and> pending s' = pending s
     \<and> same_process s s'"
  by (auto simp: next_outcome_def same_process_def split: list.splits)

lemma arrive_keeps:
  "trace (arrive k s) = trace s \<and> same_process s (arrive k s) \<and> sched (arrive k s) = sched s
   \<and> inflight (arrive k s) = inflight s
   \<and> ((eof s \<longrightarrow> pending s = []) \<longrightarrow> eof (arrive k s) \<longrightarrow> pending (arrive k s) = [])"
proof (induction k arbitrary: s)
  case 0
  show ?case by (simp add: same_process_def)
next
  case (Suc k)
  show ?case
  proof (cases "pending s")
    case Nil
    then show ?thesis by (simp add: same_process_def inflight_def)
  next
    case (Cons b bs)
    let ?s = "s\<lparr>pending := bs, buffer := buffer s @ b\<rparr>"
    from Suc.IH [of ?s] Cons show ?thesis
      by (simp add: same_process_def inflight_def)
  qed
qed

lemma first_data_concat: "first_data bs = Some (b, rest) \<Longrightarrow> concat bs = b @ concat rest"
  by (induction bs) (auto split: if_splits)

lemma first_data_None: "first_data bs = None \<Longrightarrow> concat bs = []"
  by (induction bs) (auto split: if_splits)

lemma wait_for_data_keeps:
  "wait_for_data s = Some s' \<Longrightarrow>
     trace s' = trace s \<and> same_process s s' \<and> sched s' = sched s \<and> inflight s' = inflight s
     \<and> (\<not> eof s \<longrightarrow> eof s' \<longrightarrow> pending s' = [])"
  by (auto simp: wait_for_data_def same_process_def inflight_def
           split: option.splits if_splits dest: first_data_concat first_data_None)

lemma same_process_refl: "same_process s s"
  by (simp add: same_process_def)

lemma same_process_trans: "same_process s s1 \<Longrightarrow> same_process s1 s2 \<Longrightarrow> same_process s s2"
  by (simp add: same_process_def)

lemma lib_call_keeps:
  "lib_call ev s = (r, s') \<Longrightarrow>
     trace s' = trace s @ [ev] \<and> buffer s' = buffer s \<and> eof s' = eof s
     \<and> pending s' = pending s \<and> same_process s s'"
  by (auto simp: lib_call_def next_outcome_def same_process_def
           split: list.splits outcome.splits)

lemma read_spec:
  assumes "read n s = (r, s')"
  shows "same_process s s'"
    and "r = Returned c \<Longrightarrow> trace s' = trace s @ [EvRead c]"
    and "r \<noteq> Returned c' \<Longrightarrow> r = Raised e \<or> r = Blocked \<Longrightarrow> trace s' = trace s"
    and "r = Returned c \<Longrightarrow> c @ inflight s' = inflight s"
    and "r = Returned c \<Longrightarrow> eof_last s \<Longrightarrow> eof_last s'"
proof -
  obtain x s1 where n: "next_outcome s = (x, s1)"
    by (cases "next_outcome s")
  note k1 = next_outcome_keeps [OF n]
  show "same_process s s'"
    using assms n k1
    by (cases x)
       (auto simp: read_def Let_def same_process_def
             split: if_splits option.splits dest!: wait_for_data_keeps
             simp: arrive_keeps [unfolded same_process_def])
  show "r = Returned c \<Longrightarrow> trace s' = trace s @ [EvRead c]"
    using assms n k1
    by (cases x)
       (auto simp: read_def Let_def arrive_keeps split: if_splits option.splits
             dest!: wait_for_data_keeps)
  show "r \<noteq> Returned c' \<Longrightarrow> r = Raised e \<or> r = Blocked \<Longrightarrow> trace s' = trace s"
    using assms n k1
    by (cases x) (auto simp: read_def Let_def split: if_splits option.splits)
  show "r = Returned c \<Longrightarrow> c @ inflight s' = inflight s"
  proof -
    assume r: "r = Returned c"
    from assms n r obtain k where x: "x = Resume k"
      by (cases x) (auto simp: read_def)
    show ?thesis
    proof (cases "buffer s1 = [] \<and> \<not> eof s1")
      case True
      with assms n r x obtain s2 where w: "wait_for_data s1 = Some s2"
        and c: "c = take n (buffer (arrive k s2))"
        and s': "s' = (arrive k s2)\<lparr>buffer := drop n (buffer (arrive k s2)),
                        trace := trace (arrive k s2) @ [EvRead c]\<rparr>"
        by (auto simp: read_def Let_def split: option.splits)
      have "c @ inflight s' = inflight (arrive k s2)"
        unfolding s' c by (simp add: inflight_def)
      also have "\<dots> = inflight s2" by (simp add: arrive_keeps)
      also have "\<dots> = inflight s1" using wait_for_data_keeps [OF w] by simp
      also have "\<dots> = inflight s" using k1 by (simp add: inflight_def)
      finally show ?thesis .
    next
      case False
      with assms n r x have c: "c = take n (buffer s1)"
        and s': "s' = s1\<lparr>buffer := drop n (buffer s1), trace := trace s1 @ [EvRead c]\<rparr>"
        by (auto simp: read_def Let_def)
      have "c @ inflight s' = inflight s1"
        unfolding s' c by (simp add: inflight_def)
      then show ?thesis using k1 by (simp add: inflight_def)
    qed
  qed
  show "r = Returned c \<Longrightarrow> eof_last s \<Longrightarrow> eof_last s'"
  proof -
    assume r: "r = Returned c" and inv: "eof_last s"
    from assms n r obtain k where x: "x = Resume k"
      by (cases x) (auto simp: read_def)
    from inv k1 have inv1: "eof_last s1" by (simp add: eof_last_def)
    show ?thesis
    proof (cases "buffer s1 = [] \<and> \<not> eof s1")
      case True
      with assms n r x obtain s2 where w: "wait_for_data s1 = Some s2"
        and s': "s' = (arrive k s2)\<lparr>buffer := drop n (buffer (arrive k s2)),
                        trace := trace (arrive k s2) @ [EvRead c]\<rparr>"
        by (auto simp: read_def Let_def split: option.splits)
      from wait_for_data_keeps [OF w] True have "eof s2 \<longrightarrow> pending s2 = []" by simp
      with arrive_keeps [of k s2] have "eof_last (arrive k s2)"
        by (simp add: eof_last_def)
      then show ?thesis unfolding s' by (simp add: eof_last_def)
    next
      case False
      with assms n r x
      have s': "s' = s1\<lparr>buffer := drop n (buffer s1), trace := trace s1 @ [EvRead c]\<rparr>"
        by (auto simp: read_def Let_def)
      from inv1 show ?thesis unfolding s' by (simp add: eof_last_def)
    qed
  qed
qed

lemma fed_call_spec:
  assumes "lib_call ev s = (x, s1)"
    and "(r, s') = (case (x, s1) of
                      (Returned k, s1) \<Rightarrow> (Returned (), arrive k s1)
                    | (Raised e, s1) \<Rightarrow> (Raised e, s1)
                    | (Blocked, s1) \<Rightarrow> (Blocked, s1))"
  shows "trace s' = trace s @ [ev] \<and> same_process s s' \<and> inflight s' = inflight s
         \<and> (eof_last s \<longrightarrow> eof_last s')"
proof -
  note k = lib_call_keeps [OF assms(1)]
  from k have i: "inflight s1 = inflight s" "eof_last s \<longrightarrow> eof_last s1"
    by (simp_all add: inflight_def eof_last_def)
  show ?thesis
  proof (cases x)
    case (Returned n)
    with assms(2) have s': "s' = arrive n s1" by simp
    from arrive_keeps [of n s1] k i show ?thesis
      unfolding s' by (auto simp: eof_last_def intro: same_process_trans)
  next
    case (Raised e)
    with assms(2) k i show ?thesis by simp
  next
    case Blocked
    with assms(2) k i show ?thesis by simp
  qed
qed

lemma response_write_spec:
  "response_write c s = (r, s') \<Longrightarrow>
     trace s' = trace s @ [EvWrite c] \<and> same_process s s' \<and> inflight s' = inflight s
     \<and> (eof_last s \<longrightarrow> eof_last s')"
  by (cases "lib_call (EvWrite c) s") (rule fed_call_spec, assumption, simp add: response_write_def)

lemma sleep_spec:
  "sleep d s = (r, s') \<Longrightarrow>
     trace s' = trace s @ [EvSleep d] \<and> same_process s s' \<and> inflight s' = inflight s
     \<and> (eof_last s \<longrightarrow> eof_last s')"
  by (cases "lib_call (EvSleep d) s") (rule fed_call_spec, assumption, simp add: sleep_def)

lemma relay_loop_cases [consumes 1, case_names exhausted read_stops write_stops sleep_stops again]:
  assumes "relay_loop cfg s = (r, s')"
  obtains
    "at_eof s" "r = Returned ()" "s' = s"
  | rr where "\<not> at_eof s" "read CHUNK_SIZE s = (rr, s')" "\<forall>c. rr \<noteq> Returned c"
      "r \<noteq> Returned ()"
  | chunk s1 where "\<not> at_eof s" "read CHUNK_SIZE s = (Returned chunk, s1)"
      "response_write chunk s1 = (r, s')" "r \<noteq> Returned ()"
  | chunk s1 s2 where "\<not> at_eof s" "read CHUNK_SIZE s = (Returned chunk, s1)"
      "response_write chunk s1 = (Returned (), s2)" "SLOWDOWN cfg"
      "sleep TIME2DELAY s2 = (r, s')" "r \<noteq> Returned ()"
  | chunk s1 s2 s3 where "\<not> at_eof s" "read CHUNK_SIZE s = (Returned chunk, s1)"
      "response_write chunk s1 = (Returned (), s2)"
      "if SLOWDOWN cfg then sleep TIME2DELAY s2 = (Returned (), s3) else s3 = s2"
      "relay_loop cfg s3 = (r, s')" "backlog s3 < backlog s"
proof (cases "at_eof s")
  case True
  have "r = Returned () \<and> s' = s"
    using assms True relay_loop.simps [of cfg s] by simp
  with True show ?thesis by (simp add: that(1))
next
  case False
  note unf = relay_loop.simps [of cfg s]
  obtain r1 s1 where rd: "read CHUNK_SIZE s = (r1, s1)"
    by (cases "read CHUNK_SIZE s")
  show ?thesis
  proof (cases r1)
    case (Raised e)
    have "s1 = s' \<and> r = Raised e"
      using assms False rd Raised unf by simp
    with False rd Raised show ?thesis by (simp add: that(2))
  next
    case Blocked
    have "s1 = s' \<and> r = Blocked"
      using assms False rd Blocked unf by simp
    with False rd Blocked show ?thesis by (simp add: that(2))
  next
    case (Returned chunk)
    note rd' = rd [unfolded Returned]
    obtain r2 s2 where wr: "response_write chunk s1 = (r2, s2)"
      by (cases "response_write chunk s1")
    have b1: "backlog s1 < backlog s"
      using rd' False by (rule backlog_read)
    show ?thesis
    proof (cases r2)
      case (Raised e)
      have "s2 = s' \<and> r = Raised e"
        using assms False rd' wr Raised unf by simp
      with False rd' wr Raised show ?thesis by (simp add: that(3))
    next
      case Blocked
      have "s2 = s' \<and> r = Blocked"
        using assms False rd' wr Blocked unf by simp
      with False rd' wr Blocked show ?thesis by (simp add: that(3))
    next
      case (Returned u)
      then have wr': "response_write chunk s1 = (Returned (), s2)" using wr by simp
      have b2: "backlog s2 \<le> backlog s1" using wr' by (rule backlog_write)
      show ?thesis
      proof (cases "SLOWDOWN cfg")
        case noslow: False
        have "relay_loop cfg s2 = (r, s')"
          using assms False rd' wr' noslow unf by simp
        moreover have "backlog s2 < backlog s" using b1 b2 by simp
        ultimately show ?thesis
          using False rd' wr' noslow by (intro that(5) [of chunk s1 s2 s2]) simp_all
      next
        case slow: True
        obtain r3 s3 where sl: "sleep TIME2DELAY s2 = (r3, s3)"
          by (cases "sleep TIME2DELAY s2")
        have b3: "backlog s3 \<le> backlog s2" using sl by (rule backlog_sleep)
        show ?thesis
        proof (cases r3)
          case (Raised e)
          have "s3 = s' \<and> r = Raised e"
            using assms False rd' wr' slow sl Raised unf by simp
          with False rd' wr' slow sl Raised show ?thesis
            by (intro that(4) [of chunk s1 s2]) simp_all
        next
          case Blocked
          have "s3 = s' \<and> r = Blocked"
            using assms False rd' wr' slow sl Blocked unf by simp
          with False rd' wr' slow sl Blocked show ?thesis
            by (intro that(4) [of chunk s1 s2]) simp_all
        next
          case (Returned v)
          have "relay_loop cfg s3 = (r, s')"
            using assms False rd' wr' slow sl Returned unf by simp
          moreover have "backlog s3 < backlog s" using b1 b2 b3 by simp
          ultimately show ?thesis
            using False rd' wr' slow sl Returned
            by (intro that(5) [of chunk s1 s2 s3]) simp_all
        qed
      qed
    qed
  qed
qed

lemma relay_loop_trace:
  "relay_loop cfg s = (r, s') \<Longrightarrow>
     \<exists>t. trace s' = trace s @ t \<and> list_all loop_event t \<and> same_process s s'"
proof (induction "backlog s" arbitrary: s rule: less_induct)
  case less
  from less.prems show ?case
  proof (cases rule: relay_loop_cases)
    case exhausted
    then show ?thesis by (simp add: same_process_refl)
  next
    case (read_stops rr)
    then have "trace s' = trace s"
      using read_spec(3) [OF read_stops(2)] by (cases rr) auto
    with read_spec(1) [OF read_stops(2)] show ?thesis by simp
  next
    case (write_stops chunk s1)
    from read_spec(1,2) [OF write_stops(2)] response_write_spec [OF write_stops(3)]
    show ?thesis by (auto intro: same_process_trans)
  next
    case (sleep_stops chunk s1 s2)
    from read_spec(1,2) [OF sleep_stops(2)] response_write_spec [OF sleep_stops(3)]
      sleep_spec [OF sleep_stops(5)]
    show ?thesis by (auto intro: same_process_trans)
  next
    case (again chunk s1 s2 s3)
    from less.hyps [OF again(6) again(5)]
    obtain t where t: "trace s' = trace s3 @ t" "list_all loop_event t" "same_process s3 s'"
      by blast
    have "\<exists>u. trace s3 = trace s2 @ u \<and> list_all loop_event u \<and> same_process s2 s3"
      using again(4) sleep_spec [of TIME2DELAY s2 "Returned ()" s3]
      by (cases "SLOWDOWN cfg") (auto simp: same_process_refl)
    then obtain u where u: "trace s3 = trace s2 @ u" "list_all loop_event u" "same_process s2 s3"
      by blast
    from read_spec(1,2) [OF again(2)] response_write_spec [OF again(3)] t u
    show ?thesis by (auto intro: same_process_trans)
  qed
qed

lemma relay_loop_returned:
  "relay_loop cfg s = (Returned (), s') \<Longrightarrow> eof_last s \<Longrightarrow>
     \<exists>t. trace s' = trace s @ t \<and> written t = chunks_read t
          \<and> concat (written t) = inflight s \<and> at_eof s'"
proof (induction "backlog s" arbitrary: s rule: less_induct)
  case less
  from less.prems(1) show ?case
  proof (cases rule: relay_loop_cases)
    case exhausted
    with less.prems(2) show ?thesis
      by (simp add: at_eof_def eof_last_def inflight_def)
  next
    case read_stops
    then show ?thesis by simp
  next
    case write_stops
    then show ?thesis by simp
  next
    case sleep_stops
    then show ?thesis by simp
  next
    case (again chunk s1 s2 s3)
    note rd = read_spec(2,4,5) [OF again(2) refl]
    note wr = response_write_spec [OF again(3)]
    have sl: "\<exists>u. trace s3 = trace s2 @ u \<and> written u = [] \<and> chunks_read u = []
                \<and> inflight s3 = inflight s2 \<and> (eof_last s2 \<longrightarrow> eof_last s3)"
      using again(4) sleep_spec [of TIME2DELAY s2 "Returned ()" s3]
      by (cases "SLOWDOWN cfg") auto
    then obtain u where u: "trace s3 = trace s2 @ u" "written u = []" "chunks_read u = []"
      "inflight s3 = inflight s2" "eof_last s2 \<longrightarrow> eof_last s3"
      by blast
    have inv3: "eof_last s3"
      using rd(3) wr u(5) less.prems(2) by simp
    from less.hyps [OF again(6) again(5) inv3]
    obtain t where t: "trace s' = trace s3 @ t" "written t = chunks_read t"
      "concat (written t) = inflight s3" "at_eof s'"
      by blast
    let ?t = "[EvRead chunk, EvWrite chunk] @ u @ t"
    have "trace s' = trace s @ ?t"
      using rd(1) wr u(1) t(1) by simp
    moreover have "written ?t = chunks_read ?t"
      using u(2,3) t(2) by (simp add: written_append chunks_read_append)
    moreover have "concat (written ?t) = inflight s"
      using u(2,4) t(3) wr rd(2) by (simp add: written_append)
    ultimately show ?thesis using t(4) by blast
  qed
qed

lemma loop_event_count: "list_all loop_event t \<Longrightarrow> \<not> loop_event e \<Longrightarrow> count_list t e = 0"
  by (induction t) auto

lemma response_write_eof_spec:
  "response_write_eof s = (r, s') \<Longrightarrow>
     trace s' = trace s @ [EvWriteEof] \<and> same_process s s'"
  by (auto simp: response_write_eof_def split: prod.splits res.splits dest!: lib_call_keeps)

lemma wait_spec:
  "wait s = (r, s') \<Longrightarrow>
     trace s' = trace s @ [EvWait] \<and> kill_raises s' = kill_raises s \<and> spawned s' = spawned s
     \<and> (reaped s' \<longleftrightarrow> reaped s \<or> r = Returned ())"
  by (auto simp: wait_def same_process_def split: prod.splits res.splits dest!: lib_call_keeps)

lemma response_prepare_spec:
  "response_prepare h s = (r, s') \<Longrightarrow>
     trace s' = trace s @ [EvPrepare h] \<and> same_process s s' \<and> buffer s' = buffer s
     \<and> eof s' = eof s \<and> pending s' = pending s"
  by (auto simp: response_prepare_def split: prod.splits res.splits dest!: lib_call_keeps)

lemma create_subprocess_exec_spec:
  "create_subprocess_exec a c s = (r, s') \<Longrightarrow>
     trace s' = trace s @ [EvSpawn a c] \<and> (spawned s' \<longleftrightarrow> spawned s \<or> r = Returned ())
     \<and> reaped s' = reaped s \<and> kill_raises s' = kill_raises s
     \<and> inflight s' = inflight s \<and> (eof_last s \<longrightarrow> eof_last s')"
proof -
  assume a: "create_subprocess_exec a c s = (r, s')"
  obtain x s1 where l: "lib_call (EvSpawn a c) s = (x, s1)"
    by (cases "lib_call (EvSpawn a c) s")
  note k = lib_call_keeps [OF l]
  show ?thesis
  proof (cases x)
    case (Returned n)
    let ?s = "s1\<lparr>spawned := True\<rparr>"
    from a l Returned have s': "s' = arrive n ?s" and r: "r = Returned ()"
      by (simp_all add: create_subprocess_exec_def)
    have "inflight ?s = inflight s" "eof_last s \<longrightarrow> eof_last ?s"
      using k by (simp_all add: inflight_def eof_last_def)
    with arrive_keeps [of n ?s] k show ?thesis
      unfolding s' r by (auto simp: same_process_def eof_last_def)
  next
    case (Raised e)
    with a l k show ?thesis
      by (auto simp: create_subprocess_exec_def same_process_def inflight_def eof_last_def)
  next
    case Blocked
    with a l k show ?thesis
      by (auto simp: create_subprocess_exec_def same_process_def inflight_def eof_last_def)
  qed
qed

lemma try_body_spec:
  assumes "relay_loop cfg s = (lr, s1)" and "try_body cfg s = (tr, s2)"
  shows "(lr = Returned () \<longrightarrow> response_write_eof s1 = (tr, s2))
         \<and> (lr \<noteq> Returned () \<longrightarrow> tr = lr \<and> s2 = s1)"
  using assms by (cases lr) (auto simp: try_body_def)

lemma relay_spec:
  assumes "try_body cfg s = (tr, s1)" and "relay cfg s = (r, s')"
  shows "(tr = Blocked \<longrightarrow> r = Blocked \<and> s' = s1)
       \<and> (tr = Returned () \<longrightarrow> wait s1 = (r, s'))
       \<and> (\<forall>e. tr = Raised e \<longrightarrow>
             (\<exists>rw. wait (snd (kill s1)) = (rw, s') \<and> r \<noteq> Returned ()
                  \<and> (rw = Returned () \<longrightarrow>
                       r = Raised (case kill_raises s1 of None \<Rightarrow> e | Some e' \<Rightarrow> e'))
                  \<and> (rw \<noteq> Returned () \<longrightarrow> r = rw)))"
  using assms
  by (cases tr) (auto simp: relay_def kill_def split: prod.splits res.splits option.splits)

lemma relay_loop_exhausted: "relay_loop cfg s = (Returned (), s') \<Longrightarrow> at_eof s'"
proof (induction "backlog s" arbitrary: s rule: less_induct)
  case less
  from less.prems show ?case
    by (cases rule: relay_loop_cases) (auto intro: less.hyps)
qed

lemma archivate_cases [consumes 1, case_names bad_request not_found prepare_stops spawn_stops relayed]:
  assumes "archivate cfg req s = (r, s')"
  obtains
    "match_info req ''archive_hash'' = None \<or> match_info req ''archive_hash'' = Some []"
      "r = Raised HTTPBadRequest" "s' = s"
  | h where "match_info req ''archive_hash'' = Some h" "h \<noteq> []" "\<not> u_exists cfg s h"
      "r = Raised (HTTPNotFound ''Archive not exists or was deleted!'')" "s' = s"
  | h where "match_info req ''archive_hash'' = Some h" "h \<noteq> []" "u_exists cfg s h"
      "response_prepare (u_response_header h) s = (r, s')" "r \<noteq> Returned ()"
  | h s1 where "match_info req ''archive_hash'' = Some h" "h \<noteq> []" "u_exists cfg s h"
      "response_prepare (u_response_header h) s = (Returned (), s1)"
      "create_subprocess_exec [''zip'', ''-r'', ''-'', h] (MEDIA_DIR cfg) s1 = (r, s')"
      "r \<noteq> Returned ()"
  | h s1 s2 where "match_info req ''archive_hash'' = Some h" "h \<noteq> []" "u_exists cfg s h"
      "response_prepare (u_response_header h) s = (Returned (), s1)"
      "create_subprocess_exec [''zip'', ''-r'', ''-'', h] (MEDIA_DIR cfg) s1 = (Returned (), s2)"
      "relay cfg s2 = (r, s')"
proof (cases "match_info req ''archive_hash''")
  case None
  with assms have "r = Raised HTTPBadRequest \<and> s' = s" by (simp add: archivate_def)
  with None show ?thesis by (intro that(1)) simp_all
next
  case (Some h)
  show ?thesis
  proof (cases "h = []")
    case True
    with assms Some have "r = Raised HTTPBadRequest \<and> s' = s" by (simp add: archivate_def)
    with Some True show ?thesis by (intro that(1)) simp_all
  next
    case False
    note h = this
    show ?thesis
    proof (cases "u_exists cfg s h")
      case False
      with assms Some h
      have "r = Raised (HTTPNotFound ''Archive not exists or was deleted!'') \<and> s' = s"
        by (simp add: archivate_def)
      with Some h False show ?thesis by (intro that(2) [of h]) simp_all
    next
      case True
      obtain r1 s1 where p: "response_prepare (u_response_header h) s = (r1, s1)"
        by (cases "response_prepare (u_response_header h) s")
      show ?thesis
      proof (cases "r1 = Returned ()")
        case False
        with assms Some h True p have "r = r1 \<and> s' = s1"
          by (cases r1) (simp_all add: archivate_def)
        with Some h True p False show ?thesis by (intro that(3) [of h]) simp_all
      next
        case r1: True
        obtain r2 s2 where c:
          "create_subprocess_exec [''zip'', ''-r'', ''-'', h] (MEDIA_DIR cfg) s1 = (r2, s2)"
          by (cases "create_subprocess_exec [''zip'', ''-r'', ''-'', h] (MEDIA_DIR cfg) s1")
        show ?thesis
        proof (cases "r2 = Returned ()")
          case False
          with assms Some h True p r1 c have "r = r2 \<and> s' = s2"
            by (cases r2) (simp_all add: archivate_def)
          with Some h True p r1 c False show ?thesis by (intro that(4) [of h s1]) simp_all
        next
          case r2: True
          with assms Some h True p r1 c have "relay cfg s2 = (r, s')"
            by (simp add: archivate_def)
          with Some h True p r1 c r2 show ?thesis by (intro that(5) [of h s1 s2]) simp_all
        qed
      qed
    qed
  qed
qed

lemma relay_waits:
  assumes "relay cfg s = (r, s')" and "r \<noteq> Blocked"
  shows "\<exists>t. trace s' = trace s @ t @ [EvWait]"
proof -
  obtain lr s1 where l: "relay_loop cfg s = (lr, s1)" by (cases "relay_loop cfg s")
  obtain tr s2 where t: "try_body cfg s = (tr, s2)" by (cases "try_body cfg s")
  from relay_loop_trace [OF l] obtain u where u: "trace s1 = trace s @ u" by blast
  have "\<exists>v. trace s2 = trace s @ v"
    using try_body_spec [OF l t] u by (cases "lr = Returned ()")
      (auto dest!: response_write_eof_spec)
  then obtain v where v: "trace s2 = trace s @ v" by blast
  show ?thesis
  proof (cases tr)
    case (Returned x)
    with relay_spec [OF t assms(1)] have "wait s2 = (r, s')" by simp
    with wait_spec [of s2 r s'] v show ?thesis by simp
  next
    case (Raised e)
    with relay_spec [OF t assms(1)] obtain rw where "wait (snd (kill s2)) = (rw, s')"
      by blast
    with wait_spec [of "snd (kill s2)" rw s'] v show ?thesis by (simp add: kill_def)
  next
    case Blocked
    with relay_spec [OF t assms(1)] assms(2) show ?thesis by simp
  qed
qed

lemmas run_defs =
  archivate_def relay_def try_body_def u_exists_def u_response_header_def os_path_join_def
  response_prepare_def create_subprocess_exec_def read_def response_write_def sleep_def
  response_write_eof_def kill_def wait_def lib_call_def next_outcome_def wait_for_data_def
  at_eof_def request_start_def photos_cfg_def request_for_def photos_fs_def
  CHUNK_SIZE_def TIME2DELAY_def Let_def

lemma interrupted_loop:
  "relay_loop photos_cfg interrupted_start = (Raised ConnectionResetError, interrupted_loop_end)"
  by (simp add: relay_loop.simps interrupted_start_def interrupted_loop_end_def run_defs)

lemma interrupted_try_body:
  "try_body photos_cfg interrupted_start = (Raised ConnectionResetError, interrupted_loop_end)"
  by (simp add: try_body_def interrupted_loop)

lemma interrupted_relay:
  "relay photos_cfg interrupted_start = (Raised ConnectionResetError, interrupted_end)"
  by (simp add: relay_def interrupted_try_body interrupted_loop_end_def interrupted_end_def
        kill_def wait_def lib_call_def next_outcome_def)

lemma cancelled_run:
  "archivate photos_cfg (request_for ''abc'') cancelled_start = (Raised CancelledError, cancelled_end)"
  by (simp add: relay_loop.simps cancelled_start_def cancelled_end_def run_defs)

lemma drained_loop:
  "relay_loop photos_cfg drained_start = (Returned (), drained_loop_end)"
  by (simp add: relay_loop.simps drained_start_def drained_loop_end_def run_defs)

lemma drained_try_body:
  "try_body photos_cfg drained_start = (Returned (), drained_try_end)"
  by (simp add: try_body_def drained_loop drained_loop_end_def drained_try_end_def
        response_write_eof_def lib_call_def next_outcome_def)

lemma drained_relay:
  "relay photos_cfg drained_start = (Returned (), drained_end)"
  by (simp add: relay_def drained_try_body drained_try_end_def drained_end_def
        wait_def lib_call_def next_outcome_def)

lemma next_outcome_completes:
  "list_all completes (sched s) \<Longrightarrow>
     \<exists>k s1. next_outcome s = (Resume k, s1) \<and> list_all completes (sched s1)"
proof (cases "sched s")
  case Nil
  then show ?thesis by (simp add: next_outcome_def)
next
  case (Cons x xs)
  assume "list_all completes (sched s)"
  with Cons show ?thesis by (cases x) (simp_all add: next_outcome_def)
qed

lemma lib_call_completes:
  assumes "list_all completes (sched s)"
  shows "\<exists>k s1. lib_call ev s = (Returned k, s1) \<and> list_all completes (sched s1)"
proof -
  from assms have "list_all completes (sched (s\<lparr>trace := trace s @ [ev]\<rparr>))" by simp
  from next_outcome_completes [OF this] show ?thesis
    by (auto simp: lib_call_def)
qed

lemma arrive_drained:
  "pending s = [] \<Longrightarrow> eof s \<Longrightarrow>
     buffer (arrive k s) = buffer s \<and> eof (arrive k s) \<and> pending (arrive k s) = []"
  by (cases k) simp_all

lemma concat_empty_first_data: "concat bs = [] \<Longrightarrow> first_data bs = None"
  by (induction bs) auto

lemma fed_call_drained:
  assumes "list_all completes (sched s)" and "drained s"
    and "f = (\<lambda>s. case lib_call ev s of
                      (Returned k, s1) \<Rightarrow> (Returned (), arrive k s1)
                    | (Raised e, s1) \<Rightarrow> (Raised e, s1)
                    | (Blocked, s1) \<Rightarrow> (Blocked, s1))"
  shows "\<exists>s'. f s = (Returned (), s') \<and> trace s' = trace s @ [ev] \<and> drained s'
              \<and> list_all completes (sched s') \<and> same_process s s'"
proof -
  from lib_call_completes [OF assms(1)] obtain k s1
    where l: "lib_call ev s = (Returned k, s1)" and c: "list_all completes (sched s1)"
    by blast
  note keep = lib_call_keeps [OF l]
  from keep assms(2) have d1: "drained s1" by (simp add: drained_def)
  then have "drained (arrive k s1)"
    using arrive_drained [of s1 k] by (simp add: drained_def)
  moreover have "f s = (Returned (), arrive k s1)"
    using l assms(3) by simp
  ultimately show ?thesis
    using keep c arrive_keeps [of k s1] by (auto intro: same_process_trans)
qed

lemma read_at_close:
  assumes "buffer s = []" and "\<not> eof s" and "concat (pending s) = []" and "closes s"
    and "list_all completes (sched s)"
  shows "\<exists>s'. read n s = (Returned [], s') \<and> trace s' = trace s @ [EvRead []] \<and> drained s'
              \<and> list_all completes (sched s') \<and> same_process s s'"
proof -
  from next_outcome_completes [OF assms(5)] obtain k s1
    where n: "next_outcome s = (Resume k, s1)" and c: "list_all completes (sched s1)"
    by blast
  note keep = next_outcome_keeps [OF n]
  let ?s2 = "s1\<lparr>pending := [], eof := True\<rparr>"
  have w: "wait_for_data s1 = Some ?s2"
    using keep assms by (simp add: wait_for_data_def concat_empty_first_data same_process_def)
  have d2: "buffer (arrive k ?s2) = [] \<and> eof (arrive k ?s2) \<and> pending (arrive k ?s2) = []"
    using arrive_drained [of ?s2 k] keep assms(1) by simp
  let ?s' = "(arrive k ?s2)\<lparr>buffer := drop n (buffer (arrive k ?s2)),
                trace := trace (arrive k ?s2) @ [EvRead []]\<rparr>"
  have r: "read n s = (Returned [], ?s')"
    using n w keep assms(1,2) d2 by (simp add: read_def Let_def)
  have "same_process s ?s2" using keep by (simp add: same_process_def)
  then have "same_process s ?s'"
    using arrive_keeps [of k ?s2] by (simp add: same_process_def)
  moreover have "trace ?s' = trace s @ [EvRead []]"
    using arrive_keeps [of k ?s2] keep by simp
  moreover have "drained ?s'" using d2 by (simp add: drained_def)
  moreover have "list_all completes (sched ?s')"
    using arrive_keeps [of k ?s2] c by simp
  ultimately show ?thesis using r by blast
qed

lemma eof_during_read:
  assumes "buffer s = []" and "\<not> eof s" and "concat (pending s) = []" and "closes s"
    and "list_all completes (sched s)"
  shows "\<exists>s'. relay_loop cfg s = (Returned (), s')
              \<and> trace s' = trace s @ [EvRead [], EvWrite []]
                              @ (if SLOWDOWN cfg then [EvSleep TIME2DELAY] else [])
              \<and> drained s' \<and> list_all completes (sched s') \<and> same_process s s'"
proof -
  from read_at_close [OF assms, of CHUNK_SIZE] obtain s1
    where rd: "read CHUNK_SIZE s = (Returned [], s1)" and t1: "trace s1 = trace s @ [EvRead []]"
      and d1: "drained s1" and c1: "list_all completes (sched s1)" and p1: "same_process s s1"
    by blast
  from fed_call_drained [OF c1 d1, of "response_write []" "EvWrite []"] obtain s2
    where wr: "response_write [] s1 = (Returned (), s2)" and t2: "trace s2 = trace s1 @ [EvWrite []]"
      and d2: "drained s2" and c2: "list_all completes (sched s2)" and p2: "same_process s1 s2"
    by (auto simp: response_write_def fun_eq_iff)
  have ne: "\<not> at_eof s" using assms(2) by (simp add: at_eof_def)
  show ?thesis
  proof (cases "SLOWDOWN cfg")
    case False
    have "at_eof s2" using d2 by (simp add: drained_def at_eof_def)
    then have "relay_loop cfg s2 = (Returned (), s2)"
      using relay_loop.simps [of cfg s2] by simp
    then have "relay_loop cfg s = (Returned (), s2)"
      using relay_loop.simps [of cfg s] ne rd wr False by simp
    with t1 t2 d2 c2 p1 p2 False show ?thesis
      by (auto intro: same_process_trans)
  next
    case True
    from fed_call_drained [OF c2 d2, of "sleep TIME2DELAY" "EvSleep TIME2DELAY"] obtain s3
      where sl: "sleep TIME2DELAY s2 = (Returned (), s3)"
        and t3: "trace s3 = trace s2 @ [EvSleep TIME2DELAY]"
        and d3: "drained s3" and c3: "list_all completes (sched s3)" and p3: "same_process s2 s3"
      by (auto simp: sleep_def fun_eq_iff)
    have "at_eof s3" using d3 by (simp add: drained_def at_eof_def)
    then have "relay_loop cfg s3 = (Returned (), s3)"
      using relay_loop.simps [of cfg s3] by simp
    then have "relay_loop cfg s = (Returned (), s3)"
      using relay_loop.simps [of cfg s] ne rd wr sl True by simp
    with t1 t2 t3 d3 c3 p1 p2 p3 True show ?thesis
      by (auto intro: same_process_trans)
  qed
qed

lemma relay_returned:
  assumes "relay cfg s = (Returned (), s')"
  shows "\<exists>s1 s2. relay_loop cfg s = (Returned (), s1)
                 \<and> response_write_eof s1 = (Returned (), s2) \<and> wait s2 = (Returned (), s')"
proof -
  obtain lr s1 where l: "relay_loop cfg s = (lr, s1)" by (cases "relay_loop cfg s")
  obtain tr s2 where t: "try_body cfg s = (tr, s2)" by (cases "try_body cfg s")
  from relay_spec [OF t assms] have tr: "tr = Returned ()" and w: "wait s2 = (Returned (), s')"
    by (cases tr; auto)+
  from try_body_spec [OF l t] tr have "lr = Returned ()"
    by (cases lr) auto
  with try_body_spec [OF l t] tr l w show ?thesis by auto
qed

lemma relay_completes:
  assumes "relay_loop cfg s = (Returned (), s1)" and "list_all completes (sched s1)"
  shows "\<exists>s'. relay cfg s = (Returned (), s') \<and> trace s' = trace s1 @ [EvWriteEof, EvWait]
              \<and> reaped s'"
proof -
  from lib_call_completes [OF assms(2), of EvWriteEof] obtain k s2
    where l: "lib_call EvWriteEof s1 = (Returned k, s2)" and c: "list_all completes (sched s2)"
    by blast
  from lib_call_completes [OF c, of EvWait] obtain k' s3
    where l': "lib_call EvWait s2 = (Returned k', s3)"
    by blast
  have "relay cfg s = (Returned (), s3\<lparr>reaped := True\<rparr>)"
    using assms(1) l l' by (simp add: relay_def try_body_def response_write_eof_def wait_def)
  with lib_call_keeps [OF l] lib_call_keeps [OF l'] show ?thesis by simp
qed

lemma plain_run_abc:
  "archivate photos_cfg (request_for ''abc'') plain_start = (Returned (), plain_end ''abc'')"
  by (simp add: relay_loop.simps plain_start_def plain_end_def run_defs)


lemma plain_run_etc:
  "archivate photos_cfg (request_for ''/etc'') plain_start = (Returned (), plain_end ''/etc'')"
  by (simp add: relay_loop.simps plain_start_def plain_end_def run_defs)

lemma nozip_prepare:
  "response_prepare (u_response_header ''abc'') nozip_start = (Returned (), nozip_prepared)"
  by (simp add: nozip_start_def nozip_prepared_def run_defs)

lemma nozip_spawn:
  "create_subprocess_exec [''zip'', ''-r'', ''-'', ''abc''] (MEDIA_DIR photos_cfg) nozip_prepared
     = (Raised FileNotFoundError, nozip_end)"
  by (simp add: nozip_prepared_def nozip_end_def run_defs)






lemma archivate_starts_with_prepare:
  assumes "archivate cfg req s = (r, s')"
  shows "trace s' = trace s \<or> (\<exists>h u. trace s' = trace s @ EvPrepare h # u)"
  using assms
proof (cases rule: archivate_cases)
  case bad_request
  then show ?thesis by simp
next
  case (not_found h)
  then show ?thesis by simp
next
  case (prepare_stops h)
  from response_prepare_spec [OF prepare_stops(4)] show ?thesis by simp
next
  case (spawn_stops h s1)
  from response_prepare_spec [OF spawn_stops(4)] create_subprocess_exec_spec [OF spawn_stops(5)]
  show ?thesis by simp
next
  case (relayed h s1 s2)
  obtain lr s3 where l: "relay_loop cfg s2 = (lr, s3)" by (cases "relay_loop cfg s2")
  obtain tr s4 where t: "try_body cfg s2 = (tr, s4)" by (cases "try_body cfg s2")
  from relay_loop_trace [OF l] obtain u where u: "trace s3 = trace s2 @ u" by blast
  have "\<exists>v. trace s4 = trace s2 @ v"
    using try_body_spec [OF l t] u by (cases "lr = Returned ()")
      (auto dest!: response_write_eof_spec)
  then obtain v where v: "trace s4 = trace s2 @ v" by blast
  have "\<exists>w. trace s' = trace s2 @ w"
    using relay_spec [OF t relayed(6)] v
    by (cases tr) (auto dest!: wait_spec simp: kill_def)
  with response_prepare_spec [OF relayed(4)] create_subprocess_exec_spec [OF relayed(5)]
  show ?thesis by auto
qed

section \<open>Properties\<close>

text \<open>
  C1. Once \<open>create_subprocess_exec\<close> has returned a process, every execution of
  \<open>archivate\<close> that terminates, by returning or by raising, has called \<open>wait\<close> on the
  process, and that call is the last thing it did: the loop may have completed, a read or
  a write may have failed, the task may have been cancelled at any await of the \<open>try\<close>
  block. (\<open>Blocked\<close> is the execution that never terminates.)
\<close>

theorem archivate_always_waits:
  assumes "archivate cfg req s = (r, s')" and "\<not> spawned s" and "spawned s'"
    and "r \<noteq> Blocked"
  shows "\<exists>t. trace s' = trace s @ t @ [EvWait]"
  using assms(1)
proof (cases rule: archivate_cases)
  case bad_request
  with assms show ?thesis by simp
next
  case (not_found h)
  with assms show ?thesis by simp
next
  case (prepare_stops h)
  from response_prepare_spec [OF prepare_stops(4)] assms show ?thesis
    by (simp add: same_process_def)
next
  case (spawn_stops h s1)
  from response_prepare_spec [OF spawn_stops(4)] create_subprocess_exec_spec [OF spawn_stops(5)]
    spawn_stops(6) assms
  show ?thesis by (simp add: same_process_def)
next
  case (relayed h s1 s2)
  from relay_waits [OF relayed(6) assms(4)] obtain t where "trace s' = trace s2 @ t @ [EvWait]"
    by blast
  with response_prepare_spec [OF relayed(4)] create_subprocess_exec_spec [OF relayed(5)]
  show ?thesis by simp
qed

theorem archivate_always_waits_witness:
  "archivate photos_cfg (request_for ''abc'') cancelled_start = (Raised CancelledError, cancelled_end)
   \<and> \<not> spawned cancelled_start \<and> spawned cancelled_end
   \<and> (\<exists>t. trace cancelled_end = trace cancelled_start @ t @ [EvWait])"
proof -
  have a: "\<not> spawned cancelled_start"
    by (simp add: cancelled_start_def request_start_def)
  have b: "spawned cancelled_end"
    by (simp add: cancelled_end_def)
  have c: "Raised CancelledError \<noteq> (Blocked :: unit res)"
    by simp
  show ?thesis
    using archivate_always_waits [OF cancelled_run a b c] cancelled_run a b by simp
qed




text \<open>
  What the \<open>try\<close> statement does in every run: \<open>write_eof\<close> is called once when the
  loop has left through its \<open>at_eof\<close> test (the stream is then exhausted: the end of file
  is fed and the buffer is empty), and is not called otherwise. When an exception \<open>e\<close>, a
  cancellation included, leaves the loop, the only calls that follow are \<open>kill\<close> and
  \<open>wait\<close>, and the handler does not return normally. It raises \<open>e\<close> itself when
  \<open>kill\<close> does not raise and \<open>wait\<close> returns.
\<close>

lemma relay_cleanup:
  assumes "relay_loop cfg s = (lr, s1)" and "relay cfg s = (r, s')"
  shows "count_list (trace s') EvWriteEof
           = count_list (trace s) EvWriteEof + (if lr = Returned () then 1 else 0)
       \<and> (lr = Returned () \<longrightarrow> at_eof s1)
       \<and> (\<forall>e. lr = Raised e \<longrightarrow>
             trace s' = trace s1 @ [EvKill, EvWait] \<and> r \<noteq> Returned ()
             \<and> (kill_raises s = None \<and> \<not> reaped s \<and> reaped s' \<longrightarrow> r = Raised e))"
proof -
  obtain tr s2 where t: "try_body cfg s = (tr, s2)" by (cases "try_body cfg s")
  from relay_loop_trace [OF assms(1)] obtain u where u: "trace s1 = trace s @ u"
    "list_all loop_event u" "same_process s s1" by blast
  have c1: "count_list (trace s1) EvWriteEof = count_list (trace s) EvWriteEof"
    using u by (simp add: loop_event_count)
  note tb = try_body_spec [OF assms(1) t]
  note rs = relay_spec [OF t assms(2)]
  show ?thesis
  proof (cases lr)
    case (Returned x)
    with tb have w: "response_write_eof s1 = (tr, s2)" by simp
    note ws = response_write_eof_spec [OF w]
    have "trace s' = trace s2 \<or> trace s' = trace s2 @ [EvWait]
            \<or> trace s' = trace s2 @ [EvKill, EvWait]"
      using rs by (cases tr) (auto dest!: wait_spec simp: kill_def)
    with ws c1 Returned relay_loop_exhausted [of cfg s s1] assms(1) show ?thesis by auto
  next
    case (Raised e)
    with tb have tr: "tr = Raised e" "s2 = s1" by simp_all
    with rs obtain rw where rw: "wait (snd (kill s1)) = (rw, s')" "r \<noteq> Returned ()"
      "rw = Returned () \<longrightarrow> r = Raised (case kill_raises s1 of None \<Rightarrow> e | Some e' \<Rightarrow> e')"
      by blast
    from wait_spec [OF rw(1)] have tr': "trace s' = trace s1 @ [EvKill, EvWait]"
      and rp: "reaped s' \<longleftrightarrow> reaped s1 \<or> rw = Returned ()"
      by (simp_all add: kill_def)
    from u(3) have same: "reaped s1 = reaped s" "kill_raises s1 = kill_raises s"
      by (simp_all add: same_process_def)
    from tr' c1 Raised rw(2,3) rp same show ?thesis by auto
  next
    case Blocked
    with tb have "tr = Blocked" "s2 = s1" by simp_all
    with rs c1 Blocked show ?thesis by simp
  qed
qed


text \<open>
  C4. When \<open>archivate\<close> returns normally, the chunks passed to \<open>response.write\<close> are
  the chunks returned by \<open>stdout.read\<close>, in the same order and each once; their
  concatenation is the output of the archiver, so the sum of their sizes is the number of
  bytes the archiver produced.
\<close>

theorem relayed_chunks_are_read_chunks:
  assumes "archivate cfg req (request_start fs sc out cl kr) = (Returned (), s')"
  shows "written (trace s') = chunks_read (trace s')
       \<and> concat (written (trace s')) = concat out
       \<and> sum_list (map length (written (trace s'))) = length (concat out)"
  using assms
proof (cases rule: archivate_cases)
  case (relayed h s1 s2)
  let ?s = "request_start fs sc out cl kr"
  have s: "trace ?s = []" "inflight ?s = concat out" "eof_last ?s"
    by (simp_all add: request_start_def inflight_def eof_last_def)
  note p = response_prepare_spec [OF relayed(4)]
  note c = create_subprocess_exec_spec [OF relayed(5)]
  have i1: "inflight s1 = concat out" "eof_last s1"
    using p s by (simp_all add: inflight_def eof_last_def)
  have t2: "trace s2 = [EvPrepare (u_response_header h),
                        EvSpawn [''zip'', ''-r'', ''-'', h] (MEDIA_DIR cfg)]"
    and i2: "inflight s2 = concat out" "eof_last s2"
    using p c s i1 by simp_all
  from relay_returned [OF relayed(6)] obtain s3 s4
    where l: "relay_loop cfg s2 = (Returned (), s3)"
      and e: "response_write_eof s3 = (Returned (), s4)" and w: "wait s4 = (Returned (), s')"
    by blast
  from relay_loop_returned [OF l i2(2)] obtain t
    where t: "trace s3 = trace s2 @ t" "written t = chunks_read t"
      "concat (written t) = inflight s2"
    by blast
  have "trace s' = trace s2 @ t @ [EvWriteEof, EvWait]"
    using response_write_eof_spec [OF e] wait_spec [OF w] t(1) by simp
  then have wr: "written (trace s') = written t" and rd: "chunks_read (trace s') = chunks_read t"
    by (simp_all add: t2 written_append chunks_read_append)
  have "length (concat (written t)) = sum_list (map length (written t))"
    by (simp add: length_concat)
  with wr rd t(2,3) i2(1) show ?thesis by simp
qed simp_all

theorem relayed_chunks_are_read_chunks_witness:
  "archivate photos_cfg (request_for ''abc'') plain_start = (Returned (), plain_end ''abc'')
   \<and> written (trace (plain_end ''abc'')) = chunks_read (trace (plain_end ''abc''))
   \<and> concat (written (trace (plain_end ''abc''))) = concat [''PK'', ''zip'']
   \<and> sum_list (map length (written (trace (plain_end ''abc''))))
       = length (concat [''PK'', ''zip''])"
  using relayed_chunks_are_read_chunks
    [OF plain_run_abc [unfolded plain_start_def]] plain_run_abc
  by blast




text \<open>
  C6. When \<open>zip\<close> is missing or cannot be executed, \<open>create_subprocess_exec\<close> raises
  \<open>FileNotFoundError\<close> or \<open>PermissionError\<close>, and \<open>archivate\<close> raises that very
  exception: it is neither the \<open>HTTPNotFound\<close> of a missing directory nor
  \<open>HTTPBadRequest\<close>, and the handler spawns, kills and waits for nothing. As for the
  response: in every run of \<open>archivate\<close>, a call of \<open>create_subprocess_exec\<close> comes
  after the call of \<open>prepare\<close>, so a failure to start is never detected before the
  headers are sent, and the case to which the specification restricts its demand on the
  response does not arise.
\<close>

theorem spawn_failure_is_a_server_fault:
  assumes "match_info req ''archive_hash'' = Some h" and "h \<noteq> []" and "u_exists cfg s h"
    and "response_prepare (u_response_header h) s = (Returned (), s1)"
    and "create_subprocess_exec [''zip'', ''-r'', ''-'', h] (MEDIA_DIR cfg) s1 = (Raised e, s2)"
    and "cannot_start e"
  shows "archivate cfg req s = (Raised e, s2)
       \<and> (\<forall>m. fst (archivate cfg req s) \<noteq> Raised (HTTPNotFound m))
       \<and> fst (archivate cfg req s) \<noteq> Raised HTTPBadRequest
       \<and> trace s2 = trace s @ [EvPrepare (u_response_header h),
                                EvSpawn [''zip'', ''-r'', ''-'', h] (MEDIA_DIR cfg)]
       \<and> spawned s2 = spawned s \<and> reaped s2 = reaped s
       \<and> (archivate cfg' req' w = (r', w') \<and> trace w' = trace w @ t \<and> EvSpawn a c \<in> set t
            \<longrightarrow> (\<exists>hd u. t = EvPrepare hd # u))"
proof -
  have a: "archivate cfg req s = (Raised e, s2)"
    using assms(1-5) by (simp add: archivate_def)
  have "(\<forall>m. e \<noteq> HTTPNotFound m) \<and> e \<noteq> HTTPBadRequest"
    using assms(6) by (auto simp: cannot_start_def)
  moreover have "\<exists>hd u. t = EvPrepare hd # u"
    if "archivate cfg' req' w = (r', w')" and "trace w' = trace w @ t" and "EvSpawn a c \<in> set t"
    using archivate_starts_with_prepare [OF that(1)] that(2,3) by auto
  ultimately show ?thesis
    using a response_prepare_spec [OF assms(4)] create_subprocess_exec_spec [OF assms(5)]
    by (simp add: same_process_def)
qed

theorem spawn_failure_is_a_server_fault_witness:
  "u_exists photos_cfg nozip_start ''abc''
   \<and> response_prepare (u_response_header ''abc'') nozip_start = (Returned (), nozip_prepared)
   \<and> create_subprocess_exec [''zip'', ''-r'', ''-'', ''abc''] (MEDIA_DIR photos_cfg) nozip_prepared
       = (Raised FileNotFoundError, nozip_end)
   \<and> cannot_start FileNotFoundError
   \<and> archivate photos_cfg (request_for ''abc'') nozip_start = (Raised FileNotFoundError, nozip_end)
   \<and> trace nozip_end = trace nozip_start @ [EvPrepare (u_response_header ''abc''),
                             EvSpawn [''zip'', ''-r'', ''-'', ''abc''] (MEDIA_DIR photos_cfg)]
   \<and> \<not> spawned nozip_end"
proof -
  have m: "match_info (request_for ''abc'') ''archive_hash'' = Some ''abc''"
    by (simp add: request_for_def)
  have n: "''abc'' \<noteq> []" by simp
  have u: "u_exists photos_cfg nozip_start ''abc''"
    by (simp add: nozip_start_def run_defs)
  have c: "cannot_start FileNotFoundError"
    by (simp add: cannot_start_def)
  have "\<not> spawned nozip_start"
    by (simp add: nozip_start_def request_start_def)
  then show ?thesis
    using spawn_failure_is_a_server_fault [OF m n u nozip_prepare nozip_spawn c]
      u nozip_prepare nozip_spawn c
    by simp
qed

text \<open>
  C7. When the archiver writes no byte and closes its standard output, and no await fails
  or blocks, \<open>archivate\<close> returns: \<open>write_eof\<close> is called exactly once, no byte has been
  written to the response, and the process is reaped by the final \<open>wait\<close>.
\<close>

theorem empty_archive_is_finalized:
  assumes "match_info req ''archive_hash'' = Some h" and "h \<noteq> []"
    and "fs (os_path_join (MEDIA_DIR cfg) h)"
    and "concat out = []" and "list_all completes sc"
  shows "\<exists>s'. archivate cfg req (request_start fs sc out True kr) = (Returned (), s')
              \<and> count_list (trace s') EvWriteEof = 1
              \<and> concat (written (trace s')) = []
              \<and> last (trace s') = EvWait \<and> reaped s'"
proof -
  let ?s = "request_start fs sc out True kr"
  have s: "trace ?s = []" "inflight ?s = []" "closes ?s" "list_all completes (sched ?s)"
    "u_exists cfg ?s h"
    using assms by (simp_all add: request_start_def inflight_def u_exists_def)
  from lib_call_completes [OF s(4), of "EvPrepare (u_response_header h)"] obtain k1 s1
    where l1: "lib_call (EvPrepare (u_response_header h)) ?s = (Returned k1, s1)"
      and c1: "list_all completes (sched s1)"
    by blast
  have p: "response_prepare (u_response_header h) ?s = (Returned (), s1)"
    using l1 by (simp add: response_prepare_def)
  let ?ev = "EvSpawn [''zip'', ''-r'', ''-'', h] (MEDIA_DIR cfg)"
  from lib_call_completes [OF c1, of ?ev] obtain k2 s1'
    where l2: "lib_call ?ev s1 = (Returned k2, s1')" and c2: "list_all completes (sched s1')"
    by blast
  let ?s2 = "arrive k2 (s1'\<lparr>spawned := True\<rparr>)"
  have sp: "create_subprocess_exec [''zip'', ''-r'', ''-'', h] (MEDIA_DIR cfg) s1 = (Returned (), ?s2)"
    using l2 by (simp add: create_subprocess_exec_def)
  note k1 = lib_call_keeps [OF l1]
  note k2 = lib_call_keeps [OF l2]
  note ar = arrive_keeps [of k2 "s1'\<lparr>spawned := True\<rparr>"]
  have t2: "trace ?s2 = [EvPrepare (u_response_header h), ?ev]"
    using k1 k2 ar s(1) by simp
  have i2: "inflight ?s2 = []"
    using k1 k2 ar s(2) by (simp add: inflight_def)
  have cl2: "closes ?s2"
    using k1 k2 ar s(3) by (simp add: same_process_def)
  have c2': "list_all completes (sched ?s2)"
    using ar c2 by simp
  have a: "archivate cfg req ?s = relay cfg ?s2"
    using assms(1,2) s(5) p sp by (simp add: archivate_def)
  have "\<exists>s3. relay_loop cfg ?s2 = (Returned (), s3) \<and> list_all completes (sched s3)
             \<and> (\<exists>t. trace s3 = trace ?s2 @ t \<and> list_all loop_event t
                      \<and> concat (written t) = [])"
  proof (cases "eof ?s2")
    case True
    with i2 have "at_eof ?s2" by (simp add: at_eof_def inflight_def)
    then have "relay_loop cfg ?s2 = (Returned (), ?s2)"
      using relay_loop.simps [of cfg ?s2] by simp
    with c2' show ?thesis by simp
  next
    case False
    from i2 have "buffer ?s2 = []" "concat (pending ?s2) = []"
      by (simp_all add: inflight_def)
    from eof_during_read [OF this(1) False this(2) cl2 c2', of cfg] show ?thesis
      by (cases "SLOWDOWN cfg") auto
  qed
  then obtain s3 t where l: "relay_loop cfg ?s2 = (Returned (), s3)"
    and c3: "list_all completes (sched s3)"
    and t: "trace s3 = trace ?s2 @ t" "list_all loop_event t" "concat (written t) = []"
    by blast
  from relay_completes [OF l c3] obtain s' where r: "relay cfg ?s2 = (Returned (), s')"
    and t': "trace s' = trace s3 @ [EvWriteEof, EvWait]" and rp: "reaped s'"
    by blast
  have tr: "trace s' = [EvPrepare (u_response_header h), ?ev] @ t @ [EvWriteEof, EvWait]"
    using t' t(1) t2 by simp
  have "count_list (trace s') EvWriteEof = 1"
    unfolding tr using t(2) by (simp add: loop_event_count)
  moreover have "concat (written (trace s')) = []"
    unfolding tr using t(3) by (simp add: written_append)
  moreover have "last (trace s') = EvWait"
    unfolding tr by simp
  ultimately show ?thesis using a r rp by simp
qed

theorem empty_archive_is_finalized_witness:
  "photos_fs (os_path_join (MEDIA_DIR photos_cfg) ''abc'') \<and> concat ([] :: bytes list) = []
   \<and> (\<exists>s'. archivate photos_cfg (request_for ''abc'') (request_start photos_fs [] [] True None)
               = (Returned (), s')
             \<and> count_list (trace s') EvWriteEof = 1 \<and> concat (written (trace s')) = []
             \<and> last (trace s') = EvWait \<and> reaped s')"
proof -
  have m: "match_info (request_for ''abc'') ''archive_hash'' = Some ''abc''"
    by (simp add: request_for_def)
  have n: "''abc'' \<noteq> []" by simp
  have d: "photos_fs (os_path_join (MEDIA_DIR photos_cfg) ''abc'')"
    by (simp add: run_defs)
  have e: "concat ([] :: bytes list) = []" by simp
  have c: "list_all completes []" by simp
  show ?thesis
    using empty_archive_is_finalized
      [where req = "request_for ''abc''" and h = "''abc''" and fs = photos_fs
         and cfg = photos_cfg and out = "[]" and sc = "[]" and kr = None, OF m n d e c] d
    by simp
qed

text \<open>
  C8. For an identifier that starts with the separator, \<open>os.path.join\<close> drops the media
  root: \<open>_exists\<close> is \<open>isdir\<close> of the identifier itself, so it holds for any directory of
  the file system, and once \<open>prepare\<close> has returned \<open>archivate\<close> calls
  \<open>create_subprocess_exec\<close> for \<open>zip -r -\<close> on that directory.
\<close>

theorem absolute_identifier_leaves_media_root:
  assumes "take 1 h = ''/''"
  shows "os_path_join (MEDIA_DIR cfg) h = h
       \<and> u_exists cfg s h = isdir s h
       \<and> (match_info req ''archive_hash'' = Some h \<and> isdir s h
            \<and> fst (response_prepare (u_response_header h) s) = Returned ()
          \<longrightarrow> (\<exists>t. trace (snd (archivate cfg req s))
                     = trace s @ [EvPrepare (u_response_header h),
                                  EvSpawn [''zip'', ''-r'', ''-'', h] (MEDIA_DIR cfg)] @ t))"
proof -
  have j: "os_path_join (MEDIA_DIR cfg) h = h"
    using assms by (simp add: os_path_join_def)
  then have e: "u_exists cfg s h = isdir s h"
    by (simp add: u_exists_def)
  have "\<exists>t. trace (snd (archivate cfg req s))
               = trace s @ [EvPrepare (u_response_header h),
                            EvSpawn [''zip'', ''-r'', ''-'', h] (MEDIA_DIR cfg)] @ t"
    if m: "match_info req ''archive_hash'' = Some h" and d: "isdir s h"
      and p: "fst (response_prepare (u_response_header h) s) = Returned ()"
  proof -
    obtain r s' where a: "archivate cfg req s = (r, s')" by (cases "archivate cfg req s")
    from assms have ne: "h \<noteq> []" by auto
    from a show ?thesis
    proof (cases rule: archivate_cases)
      case bad_request
      with m ne show ?thesis by simp
    next
      case (not_found h')
      with m e d show ?thesis by simp
    next
      case (prepare_stops h')
      with m p show ?thesis by simp
    next
      case (spawn_stops h' s1)
      from spawn_stops(1) m have h': "h' = h" by simp
      from response_prepare_spec [OF spawn_stops(4)]
        create_subprocess_exec_spec [OF spawn_stops(5)]
      have "trace s' = trace s @ [EvPrepare (u_response_header h),
                                  EvSpawn [''zip'', ''-r'', ''-'', h] (MEDIA_DIR cfg)] @ []"
        unfolding h' by simp
      with a show ?thesis by (simp del: append_Nil2)
    next
      case (relayed h' s1 s2)
      from relayed(1) m have h': "h' = h" by simp
      obtain lr s3 where l: "relay_loop cfg s2 = (lr, s3)" by (cases "relay_loop cfg s2")
      obtain tr s4 where t: "try_body cfg s2 = (tr, s4)" by (cases "try_body cfg s2")
      from relay_loop_trace [OF l] obtain u where u: "trace s3 = trace s2 @ u" by blast
      have "\<exists>v. trace s4 = trace s2 @ v"
        using try_body_spec [OF l t] u by (cases "lr = Returned ()")
          (auto dest!: response_write_eof_spec)
      then obtain v where v: "trace s4 = trace s2 @ v" by blast
      have "\<exists>w. trace s' = trace s2 @ w"
        using relay_spec [OF t relayed(6)] v
        by (cases tr) (auto dest!: wait_spec simp: kill_def)
      then obtain w where w: "trace s' = trace s2 @ w" by blast
      from response_prepare_spec [OF relayed(4)] create_subprocess_exec_spec [OF relayed(5)]
      have "trace s2 = trace s @ [EvPrepare (u_response_header h),
                                  EvSpawn [''zip'', ''-r'', ''-'', h] (MEDIA_DIR cfg)]"
        unfolding h' by simp
      with w a show ?thesis by simp
    qed
  qed
  with j e show ?thesis by blast
qed

theorem absolute_identifier_leaves_media_root_witness:
  "take 1 ''/etc'' = ''/''
   \<and> os_path_join (MEDIA_DIR photos_cfg) ''/etc'' = ''/etc''
   \<and> u_exists photos_cfg plain_start ''/etc''
   \<and> archivate photos_cfg (request_for ''/etc'') plain_start = (Returned (), plain_end ''/etc'')
   \<and> (\<exists>t. trace (plain_end ''/etc'')
             = trace plain_start @ [EvPrepare (u_response_header ''/etc''),
                  EvSpawn [''zip'', ''-r'', ''-'', ''/etc''] (MEDIA_DIR photos_cfg)] @ t)"
proof -
  have a: "take 1 ''/etc'' = ''/''" by simp
  have m: "match_info (request_for ''/etc'') ''archive_hash'' = Some ''/etc''"
    by (simp add: request_for_def)
  have d: "isdir plain_start ''/etc''"
    by (simp add: plain_start_def request_start_def photos_fs_def)
  have p: "fst (response_prepare (u_response_header ''/etc'') plain_start) = Returned ()"
    by (simp add: plain_start_def run_defs)
  show ?thesis
    using absolute_identifier_leaves_media_root
      [OF a, of photos_cfg plain_start "request_for ''/etc''"] m d p plain_run_etc
    by simp
qed

text \<open>
  C9. The loop tests \<open>at_eof\<close> before each read. When the buffer is empty and the end
  of file has not been fed yet, the test fails; if the archiver then closes without
  writing, \<open>read\<close> returns the empty chunk, which is passed to \<open>response.write\<close> before
  the next test ends the loop.
\<close>

theorem empty_chunk_is_written:
  assumes "buffer s = []" and "\<not> eof s" and "concat (pending s) = []" and "closes s"
    and "list_all completes (sched s)"
  shows "\<exists>s'. relay_loop cfg s = (Returned (), s')
              \<and> trace s' = trace s @ [EvRead [], EvWrite []]
                              @ (if SLOWDOWN cfg then [EvSleep TIME2DELAY] else [])"
  using eof_during_read [OF assms, of cfg] by blast

theorem empty_chunk_is_written_witness:
  "buffer drained_start = [] \<and> \<not> eof drained_start \<and> closes drained_start
   \<and> (\<exists>s'. relay_loop photos_cfg drained_start = (Returned (), s')
             \<and> trace s' = [EvRead [], EvWrite []])"
proof -
  have h: "buffer drained_start = []" "\<not> eof drained_start"
    "concat (pending drained_start) = []" "closes drained_start"
    "list_all completes (sched drained_start)"
    by (simp_all add: drained_start_def)
  have "trace drained_start = []" "\<not> SLOWDOWN photos_cfg"
    by (simp_all add: drained_start_def photos_cfg_def)
  then show ?thesis
    using empty_chunk_is_written [OF h, of photos_cfg] h by simp
qed

text \<open>
  C10. \<open>kill\<close> is called exactly when an exception leaves the \<open>try\<close> block (the loop
  and \<open>write_eof\<close>). When the block completes, the only call that follows is \<open>wait\<close>;
  a handler that returns normally has not signalled the process and has reaped it.
\<close>

theorem kill_only_after_exception:
  assumes "try_body cfg s = (tr, s1)" and "relay cfg s = (r, s')"
  shows "count_list (trace s') EvKill
           = count_list (trace s) EvKill + (if \<exists>e. tr = Raised e then 1 else 0)
       \<and> (tr = Returned () \<longrightarrow> trace s' = trace s1 @ [EvWait])
       \<and> (r = Returned () \<longrightarrow> tr = Returned () \<and> reaped s')"
proof -
  obtain lr s0 where l: "relay_loop cfg s = (lr, s0)" by (cases "relay_loop cfg s")
  from relay_loop_trace [OF l] obtain u where u: "trace s0 = trace s @ u"
    "list_all loop_event u" by blast
  have c0: "count_list (trace s0) EvKill = count_list (trace s) EvKill"
    using u by (simp add: loop_event_count)
  have c1: "count_list (trace s1) EvKill = count_list (trace s) EvKill"
    using try_body_spec [OF l assms(1)] c0
    by (cases "lr = Returned ()") (auto dest!: response_write_eof_spec)
  note rs = relay_spec [OF assms]
  show ?thesis
  proof (cases tr)
    case (Returned x)
    with rs have "wait s1 = (r, s')" by simp
    from wait_spec [OF this] c1 Returned show ?thesis by auto
  next
    case (Raised e)
    with rs obtain rw where "wait (snd (kill s1)) = (rw, s')" "r \<noteq> Returned ()" by blast
    with wait_spec [of "snd (kill s1)" rw s'] c1 Raised show ?thesis
      by (simp add: kill_def)
  next
    case Blocked
    with rs c1 show ?thesis by simp
  qed
qed

theorem kill_only_after_exception_witness:
  "try_body photos_cfg interrupted_start = (Raised ConnectionResetError, interrupted_loop_end)
   \<and> relay photos_cfg interrupted_start = (Raised ConnectionResetError, interrupted_end)
   \<and> count_list (trace interrupted_end) EvKill = count_list (trace interrupted_start) EvKill + 1
   \<and> try_body photos_cfg drained_start = (Returned (), drained_try_end)
   \<and> relay photos_cfg drained_start = (Returned (), drained_end)
   \<and> count_list (trace drained_end) EvKill = count_list (trace drained_start) EvKill
   \<and> trace drained_end = trace drained_try_end @ [EvWait]
   \<and> reaped drained_end"
proof -
  note k = kill_only_after_exception [OF interrupted_try_body interrupted_relay]
  note k' = kill_only_after_exception [OF drained_try_body drained_relay]
  from k [THEN conjunct1]
  have "count_list (trace interrupted_end) EvKill
          = count_list (trace interrupted_start) EvKill + 1"
    by simp
  moreover from k' [THEN conjunct1]
  have "count_list (trace drained_end) EvKill = count_list (trace drained_start) EvKill"
    by simp
  moreover from k' have "trace drained_end = trace drained_try_end @ [EvWait]"
    and "reaped drained_end"
    by blast+
  ultimately show ?thesis
    using interrupted_try_body interrupted_relay drained_try_body drained_relay by blast
qed

end
